theory Spec2Isabelle
  imports Main "HOL-Library.Word"
begin

unbundle bit_operations_syntax

section \<open>Data of cmd/rigol\_visa/main.go\<close>

text \<open>
  Go's \<^verbatim>\<open>byte\<close> is an 8-bit word, \<^verbatim>\<open>int64\<close> a 64-bit word (read with
  \<open>sint\<close>) and \<^verbatim>\<open>uint32\<close> a 32-bit word. A Go \<^verbatim>\<open>string\<close> is a sequence of
  bytes, here a \<open>string\<close>.
\<close>

type_synonym byte = "8 word"
type_synonym int64 = "64 word"
type_synonym uint32 = "32 word"

section \<open>Edge extraction (func main, lines 261 to 286)\<close>

text \<open>
  The signal map of \<^verbatim>\<open>main\<close>. The loop only reads \<^verbatim>\<open>len(pins)\<close>, so the map is an
  association list (a Go map literal has no duplicate keys).
\<close>

definition pins :: "(string \<times> int) list" where
  "pins = [(''RD'', 0), (''MREQ'', 1), (''A15'', 2), (''A14'', 3), (''ROMCS'', 4)]"

text \<open>
  The variables of the loop: \<^verbatim>\<open>transitions\<close> (timestamp to pin values),
  \<^verbatim>\<open>signalChanges\<close> (pin index to timestamp of change), \<^verbatim>\<open>timestamp\<close> and \<^verbatim>\<open>last\<close>.
\<close>

record edges =
  transitions :: "int64 \<rightharpoonup> byte"
  signalChanges :: "nat \<rightharpoonup> int64"
  timestamp :: int64
  last_byte :: byte

text \<open>
  The condition \<^verbatim>\<open>b&1<<i != last&1<<i\<close>. In Go \<^verbatim>\<open>&\<close> and \<^verbatim>\<open><<\<close> have the same
  precedence and associate to the left, so the operands are \<^verbatim>\<open>(b&1)<<i\<close> and
  \<^verbatim>\<open>(last&1)<<i\<close>, shifted within a byte.
\<close>

definition pin_changed :: "byte \<Rightarrow> byte \<Rightarrow> nat \<Rightarrow> bool" where
  "pin_changed b lst i \<longleftrightarrow> push_bit i (b AND 1) \<noteq> push_bit i (lst AND 1)"

text \<open>The inner loop \<^verbatim>\<open>for i := 0; i < len(pins); i++\<close>.\<close>

definition mark_pins :: "nat \<Rightarrow> byte \<Rightarrow> byte \<Rightarrow> int64 \<Rightarrow> (nat \<rightharpoonup> int64) \<Rightarrow> (nat \<rightharpoonup> int64)" where
  "mark_pins n b lst ts sc =
     fold (\<lambda>i m. if pin_changed b lst i then m(i \<mapsto> ts) else m) [0..<n] sc"

text \<open>One iteration of \<^verbatim>\<open>for _, b := range data\<close>.\<close>

definition edge_step :: "nat \<Rightarrow> byte \<Rightarrow> edges \<Rightarrow> edges" where
  "edge_step n b s =
     (let s1 = (if b \<noteq> last_byte s
                then s\<lparr>transitions := (transitions s)(timestamp s \<mapsto> b),
                       signalChanges := mark_pins n b (last_byte s) (timestamp s) (signalChanges s)\<rparr>
                else s)
      in s1\<lparr>last_byte := b, timestamp := timestamp s1 + 1\<rparr>)"

text \<open>
  The state before the loop: both maps made empty, \<^verbatim>\<open>timestamp = 0\<close>, \<^verbatim>\<open>last = 0x00\<close>
  and \<^verbatim>\<open>transitions[0] = 0x00\<close>.
\<close>

definition edges_init :: edges where
  "edges_init = \<lparr>transitions = [0 \<mapsto> 0], signalChanges = Map.empty, timestamp = 0, last_byte = 0\<rparr>"

definition find_edges :: "(string \<times> int) list \<Rightarrow> byte list \<Rightarrow> edges" where
  "find_edges ps data = fold (edge_step (length ps)) data edges_init"

section \<open>Results, errors and run-time panics\<close>

text \<open>
  The error values the program builds: \<^verbatim>\<open>fmt.Errorf("error writing to the device: %v", status)\<close>,
  \<^verbatim>\<open>fmt.Errorf("read failed with error code %x", status)\<close>,
  \<^verbatim>\<open>errors.New("timeout waiting for trigger")\<close>, and the \<^verbatim>\<open>*strconv.NumError\<close> of the
  number parsers, with its fields \<^verbatim>\<open>Func\<close>, \<^verbatim>\<open>Num\<close> and \<^verbatim>\<open>Err\<close>.
\<close>

datatype errkind = ErrSyntax | ErrRange

datatype error =
    WriteFailed int
  | ReadFailed int
  | TriggerTimeout
  | NumError string string errkind

text \<open>The run-time panics of an index or a slice expression out of range.\<close>

datatype panic = IndexOutOfRange | SliceBoundsOutOfRange

text \<open>
  A call returns a value with a nil error (\<open>Ok\<close>), returns a non-nil error (\<open>Err\<close>), or
  does not return because the goroutine panics (\<open>Panic\<close>).
\<close>

datatype 'a result = Ok 'a | Err error | Panic panic

text \<open>Running the next statement on the value of the previous one, if it returned one.\<close>

definition and_then :: "'a result \<Rightarrow> ('a \<Rightarrow> 'b result) \<Rightarrow> 'b result" where
  "and_then r f = (case r of Ok x \<Rightarrow> f x | Err e \<Rightarrow> Err e | Panic c \<Rightarrow> Panic c)"

section \<open>Go slices and strings\<close>

text \<open>
  A slice is a window on a backing array: \<open>backing\<close> is the array from the slice's first
  element on, so that its length is \<^verbatim>\<open>cap(s)\<close>, and \<open>slen\<close> is \<^verbatim>\<open>len(s)\<close>.
\<close>

record 'a slice =
  backing :: "'a list"
  slen :: nat

definition cap :: "'a slice \<Rightarrow> nat" where
  "cap s = length (backing s)"

definition elems :: "'a slice \<Rightarrow> 'a list" where
  "elems s = take (slen s) (backing s)"

definition slice_ok :: "'a slice \<Rightarrow> bool" where
  "slice_ok s \<longleftrightarrow> slen s \<le> cap s"

definition slice_of :: "'a list \<Rightarrow> 'a slice" where
  "slice_of xs = \<lparr>backing = xs, slen = length xs\<rparr>"

text \<open>
  The slice expression \<^verbatim>\<open>s[lo:hi]\<close> on a slice: it panics unless
  \<^verbatim>\<open>0 <= lo <= hi <= cap(s)\<close>, and may reach beyond \<^verbatim>\<open>len(s)\<close>.
\<close>

definition reslice :: "'a slice \<Rightarrow> int \<Rightarrow> int \<Rightarrow> 'a slice result" where
  "reslice s lo hi =
     (if 0 \<le> lo \<and> lo \<le> hi \<and> hi \<le> int (cap s)
      then Ok \<lparr>backing = drop (nat lo) (backing s), slen = nat (hi - lo)\<rparr>
      else Panic SliceBoundsOutOfRange)"

text \<open>The index expression \<^verbatim>\<open>parts[k]\<close> on a slice of strings, given by its elements.\<close>

definition index :: "'a list \<Rightarrow> nat \<Rightarrow> 'a result" where
  "index xs k = (if k < length xs then Ok (xs ! k) else Panic IndexOutOfRange)"

text \<open>The conversion \<^verbatim>\<open>string(d)\<close> of a byte slice, on its elements.\<close>

definition string_of :: "byte list \<Rightarrow> string" where
  "string_of bs = map (\<lambda>b. char_of (unat b)) bs"

definition bytes_of :: "string \<Rightarrow> byte list" where
  "bytes_of s = map of_char s"

text \<open>
  \<^verbatim>\<open>strings.Split(s, sep)\<close> for a separator of one byte, as both calls of the program
  have: the substrings between the separators, one more than there are separators.
\<close>

fun Split :: "string \<Rightarrow> char \<Rightarrow> string list" where
  "Split [] sep = [[]]"
| "Split (c # cs) sep =
     (if c = sep then [] # Split cs sep
      else (c # hd (Split cs sep)) # tl (Split cs sep))"

section \<open>strconv.ParseInt(s, 10, 64)\<close>

text \<open>
  The standard library's \<^verbatim>\<open>ParseUint\<close> for base 10 and 64 bits reads the bytes from the
  left: a byte that is no decimal digit is a syntax error, and a value beyond
  \<open>2^64 - 1\<close> a range error, whichever the loop meets first. Its accumulator is a
  \<^verbatim>\<open>uint64\<close>; the loop tests \<^verbatim>\<open>n >= cutoff\<close> before multiplying and \<^verbatim>\<open>n1 < n\<close> after adding,
  which on natural numbers is \<open>n1 > maxVal\<close>.
\<close>

definition is_digit :: "char \<Rightarrow> bool" where
  "is_digit c \<longleftrightarrow> (48::nat) \<le> of_char c \<and> (of_char c :: nat) \<le> 57"

definition digit_val :: "char \<Rightarrow> nat" where
  "digit_val c = of_char c - 48"

definition maxVal :: nat where
  "maxVal = 2 ^ 64 - 1"

definition cutoff :: nat where
  "cutoff = maxVal div 10 + 1"

fun digits_loop :: "nat \<Rightarrow> string \<Rightarrow> errkind + nat" where
  "digits_loop n [] = Inr n"
| "digits_loop n (c # cs) =
     (if \<not> is_digit c then Inl ErrSyntax
      else if n \<ge> cutoff then Inl ErrRange
      else (let n1 = n * 10 + digit_val c
            in if n1 > maxVal then Inl ErrRange else digits_loop n1 cs))"

definition ParseUint :: "string \<Rightarrow> errkind + nat" where
  "ParseUint s = (if s = [] then Inl ErrSyntax else digits_loop 0 s)"

text \<open>
  \<^verbatim>\<open>ParseInt\<close> picks off a leading sign, converts the rest with \<^verbatim>\<open>ParseUint\<close> (which on a
  range error returns \<open>maxVal\<close>) and checks the range of an \<^verbatim>\<open>int64\<close>.
\<close>

definition ParseInt :: "string \<Rightarrow> error + int64" where
  "ParseInt s =
     (if s = [] then Inl (NumError ''ParseInt'' s ErrSyntax)
      else
        (let neg = (hd s = CHR ''-'');
             s1 = (if hd s = CHR ''+'' \<or> hd s = CHR ''-'' then tl s else s)
         in case ParseUint s1 of
              Inl ErrSyntax \<Rightarrow> Inl (NumError ''ParseInt'' s ErrSyntax)
            | Inl ErrRange \<Rightarrow> Inl (NumError ''ParseInt'' s ErrRange)
            | Inr un \<Rightarrow>
                if \<not> neg \<and> un \<ge> 2 ^ 63 then Inl (NumError ''ParseInt'' s ErrRange)
                else if neg \<and> un > 2 ^ 63 then Inl (NumError ''ParseInt'' s ErrRange)
                else Inr (if neg then - of_nat un else of_nat un)))"

text \<open>
  \<^verbatim>\<open>strconv.ParseFloat(s, 64)\<close> is floating-point code of the standard library; the
  preamble parser below takes it as the parameter \<open>pf\<close>, with any type \<open>'f\<close> of values
  that has a zero. To run the parser on a concrete line, \<open>ParseFloat_digits\<close> is
  \<^verbatim>\<open>ParseFloat\<close> on the tokens of one to fifteen decimal digits: there it returns the
  float64 that equals the integer written (every integer below \<open>10^15\<close> is a float64),
  given here as that integer. On all other tokens \<open>ParseFloat_digits\<close> reports a syntax
  error, which \<^verbatim>\<open>ParseFloat\<close> does not always do; it is only used on lines whose real
  fields are such digit tokens or are never reached.
\<close>

definition ParseFloat_digits :: "string \<Rightarrow> error + int" where
  "ParseFloat_digits s =
     (if s \<noteq> [] \<and> length s \<le> 15 \<and> list_all is_digit s
      then Inr (int (foldl (\<lambda>n c. n * 10 + digit_val c) 0 s))
      else Inl (NumError ''ParseFloat'' s ErrSyntax))"

section \<open>The instrument session (type Rigol, lines 16 to 57)\<close>

text \<open>
  The VISA library behind \<^verbatim>\<open>r.Instr\<close> is not part of the program. A transport answers
  a write with a byte count and a status, and a read with a buffer, a byte count and a
  status; what it answers may depend on everything the program has done to it so far,
  the list of events. \<^verbatim>\<open>vi.SUCCESS\<close> is the completion code 0 of VISA; error codes are
  below it.
\<close>

datatype event = Slept | Wrote string | ReadReq uint32

record transport =
  viWrite :: "event list \<Rightarrow> string \<Rightarrow> uint32 \<times> int"
  viRead :: "event list \<Rightarrow> uint32 \<Rightarrow> byte slice \<times> uint32 \<times> int"

definition SUCCESS :: int where
  "SUCCESS = 0"

text \<open>\<^verbatim>\<open>func (r *Rigol) Write(msg string) error\<close>: the byte count returned is dropped.\<close>

definition Write :: "transport \<Rightarrow> event list \<Rightarrow> string \<Rightarrow> unit result \<times> event list" where
  "Write tr log msg =
     (let (n, status) = viWrite tr log msg
      in (if status < SUCCESS then Err (WriteFailed status) else Ok (), log @ [Wrote msg]))"

text \<open>\<^verbatim>\<open>func (r *Rigol) Read(bytes uint32) ([]byte, error)\<close>.\<close>

definition Read :: "transport \<Rightarrow> event list \<Rightarrow> uint32 \<Rightarrow> byte slice result \<times> event list" where
  "Read tr log bytes =
     (let (b, n, status) = viRead tr log bytes
      in (if status < SUCCESS then Err (ReadFailed status) else Ok b, log @ [ReadReq bytes]))"

text \<open>
  The loop \<^verbatim>\<open>for _, cmd := range setup { if err := r.Write(cmd); err != nil { return err } }\<close>
  of \<^verbatim>\<open>Trigger\<close> and \<^verbatim>\<open>FetchWaveformData\<close>.
\<close>

fun sendCommands :: "transport \<Rightarrow> event list \<Rightarrow> string list \<Rightarrow> unit result \<times> event list" where
  "sendCommands tr log [] = (Ok (), log)"
| "sendCommands tr log (cmd # cmds) =
     (case Write tr log cmd of
        (Ok u, log') \<Rightarrow> sendCommands tr log' cmds
      | (Err e, log') \<Rightarrow> (Err e, log')
      | (Panic c, log') \<Rightarrow> (Panic c, log'))"

section \<open>Trigger (lines 81 to 111)\<close>

definition Trigger_setup :: "string list" where
  "Trigger_setup =
     ['':CHAN1:DISP ON'', '':CHAN1:PROB 10'', '':CHAN1:UNIT VOLT'', '':CHAN1:SCAL 1'',
      '':CHAN1:OFFS 0'', '':CHAN2:DISP OFF'', '':CHAN3:DISP OFF'', '':CHAN4:DISP OFF'',
      '':LA:STAT ON'', '':LA:POD1:DISP ON'', '':LA:POD1:THR 3'', '':LA:POD2:DISP OFF'',
      '':LA:POD2:THR 3'', '':TRIG:MODE EDGE'', '':TRIG:EDG:SOUR CHAN1'', '':TRIG:EDG:SLOP POS'',
      '':TRIG:EDG:LEV 3'', '':ACQ:MDEP 125000'', '':TIM:MAIN:SCAL 0.0002'', '':ACQ:TYPE HRES'',
      '':SING'']"

definition Trigger :: "transport \<Rightarrow> event list \<Rightarrow> unit result \<times> event list" where
  "Trigger tr log = sendCommands tr log Trigger_setup"

section \<open>WaitForCapture (lines 113 to 130)\<close>

text \<open>
  The body of the loop: sleep a second, write the query, read up to 100 bytes, take the
  first line. It returns whether the line is \<^verbatim>\<open>"STOP"\<close>, or the error of the write or the
  read. \<^verbatim>\<open>strings.Split\<close> returns at least one string, so the index 0 is in range.
\<close>

definition first_line :: "byte slice \<Rightarrow> string" where
  "first_line d = hd (Split (string_of (elems d)) CHR 0x0A)"

definition poll_once :: "transport \<Rightarrow> event list \<Rightarrow> bool result \<times> event list" where
  "poll_once tr log =
     (case Write tr (log @ [Slept]) ''TRIG:STAT?'' of
        (Err e, log1) \<Rightarrow> (Err e, log1)
      | (Panic c, log1) \<Rightarrow> (Panic c, log1)
      | (Ok u, log1) \<Rightarrow>
          (case Read tr log1 100 of
             (Err e, log2) \<Rightarrow> (Err e, log2)
           | (Panic c, log2) \<Rightarrow> (Panic c, log2)
           | (Ok d, log2) \<Rightarrow> (Ok (first_line d = ''STOP''), log2)))"

text \<open>The loop \<^verbatim>\<open>for i := 0; i < 60; i++\<close> from the value \<open>i\<close> of its counter on.\<close>

function poll_loop :: "transport \<Rightarrow> nat \<Rightarrow> event list \<Rightarrow> unit result \<times> event list" where
  "poll_loop tr i log =
     (if i < 60
      then (case poll_once tr log of
              (Err e, log') \<Rightarrow> (Err e, log')
            | (Panic c, log') \<Rightarrow> (Panic c, log')
            | (Ok stopped, log') \<Rightarrow>
                if stopped then (Ok (), log') else poll_loop tr (i + 1) log')
      else (Err TriggerTimeout, log))"
  by pat_completeness auto
termination
  by (relation "measure (\<lambda>(tr, i, log). 60 - i)") auto

definition WaitForCapture :: "transport \<Rightarrow> event list \<Rightarrow> unit result \<times> event list" where
  "WaitForCapture tr log = poll_loop tr 0 log"

section \<open>FetchWaveformData (lines 59 to 79)\<close>

definition FetchWaveformData_setup :: "string \<Rightarrow> string list" where
  "FetchWaveformData_setup source =
     ['':WAV:SOUR '' @ source, '':WAV:MODE RAW'', '':WAV:FORM BYTE'', '':WAV:STAR 1'',
      '':WAV:STOP 125000'', '':WAV:DATA?'']"

text \<open>
  The return statement \<^verbatim>\<open>return d[0:11], d[11 : len(d)-1], nil\<close>: header and data.
  The operands are evaluated from the left.
\<close>

definition split_frame :: "byte slice \<Rightarrow> (byte slice \<times> byte slice) result" where
  "split_frame d =
     and_then (reslice d 0 11) (\<lambda>header.
     and_then (reslice d 11 (int (slen d) - 1)) (\<lambda>data.
     Ok (header, data)))"

definition FetchWaveformData ::
  "transport \<Rightarrow> event list \<Rightarrow> string \<Rightarrow> (byte slice \<times> byte slice) result \<times> event list" where
  "FetchWaveformData tr log source =
     (case sendCommands tr log (FetchWaveformData_setup source) of
        (Err e, log1) \<Rightarrow> (Err e, log1)
      | (Panic c, log1) \<Rightarrow> (Panic c, log1)
      | (Ok u, log1) \<Rightarrow>
          (case Read tr log1 125000 of
             (Err e, log2) \<Rightarrow> (Err e, log2)
           | (Panic c, log2) \<Rightarrow> (Panic c, log2)
           | (Ok d, log2) \<Rightarrow> (split_frame d, log2)))"

section \<open>FetchPreamble (lines 132 to 210)\<close>

record 'f Preamble =
  Format :: int64
  Type :: int64
  Points :: int64
  Count :: int64
  Xincrement :: 'f
  Xorigin :: 'f
  Xref :: int64
  Yincrement :: 'f
  Yorigin :: int64
  Yref :: int64

text \<open>\<^verbatim>\<open>p := &Preamble{}\<close>: every field zero.\<close>

definition Preamble_zero :: "('f::zero) Preamble" where
  "Preamble_zero =
     \<lparr>Format = 0, Type = 0, Points = 0, Count = 0, Xincrement = 0, Xorigin = 0, Xref = 0,
      Yincrement = 0, Yorigin = 0, Yref = 0\<rparr>"

text \<open>
  One of the ten blocks
  \<^verbatim>\<open>if v, err := strconv.ParseInt(parts[k], 10, 64); err != nil { return nil, err } else { p.F = v }\<close>,
  and the same with \<^verbatim>\<open>ParseFloat(parts[k], 64)\<close>: the index expression is evaluated first.
\<close>

definition int_field ::
  "string list \<Rightarrow> nat \<Rightarrow> (int64 \<Rightarrow> 'p \<Rightarrow> 'p) \<Rightarrow> 'p \<Rightarrow> 'p result" where
  "int_field parts k assign p =
     and_then (index parts k) (\<lambda>tok.
       case ParseInt tok of Inl err \<Rightarrow> Err err | Inr v \<Rightarrow> Ok (assign v p))"

definition float_field ::
  "(string \<Rightarrow> error + 'f) \<Rightarrow> string list \<Rightarrow> nat \<Rightarrow> ('f \<Rightarrow> 'p \<Rightarrow> 'p) \<Rightarrow> 'p \<Rightarrow> 'p result" where
  "float_field pf parts k assign p =
     and_then (index parts k) (\<lambda>tok.
       case pf tok of Inl err \<Rightarrow> Err err | Inr v \<Rightarrow> Ok (assign v p))"

text \<open>Lines 156 to 209: from \<^verbatim>\<open>preambleStr\<close> to the returned preamble.\<close>

definition parse_preamble :: "(string \<Rightarrow> error + 'f) \<Rightarrow> string \<Rightarrow> ('f::zero) Preamble result" where
  "parse_preamble pf preambleStr =
     (let parts = Split preambleStr CHR '','' in
      and_then (and_then (and_then (and_then (and_then (and_then (and_then (and_then (and_then
        (int_field parts 0 (\<lambda>v p. p\<lparr>Format := v\<rparr>) Preamble_zero)
        (int_field parts 1 (\<lambda>v p. p\<lparr>Type := v\<rparr>)))
        (int_field parts 2 (\<lambda>v p. p\<lparr>Points := v\<rparr>)))
        (int_field parts 3 (\<lambda>v p. p\<lparr>Count := v\<rparr>)))
        (float_field pf parts 4 (\<lambda>v p. p\<lparr>Xincrement := v\<rparr>)))
        (float_field pf parts 5 (\<lambda>v p. p\<lparr>Xorigin := v\<rparr>)))
        (int_field parts 6 (\<lambda>v p. p\<lparr>Xref := v\<rparr>)))
        (float_field pf parts 7 (\<lambda>v p. p\<lparr>Yincrement := v\<rparr>)))
        (int_field parts 8 (\<lambda>v p. p\<lparr>Yorigin := v\<rparr>)))
        (int_field parts 9 (\<lambda>v p. p\<lparr>Yref := v\<rparr>)))"

definition FetchPreamble ::
  "(string \<Rightarrow> error + 'f) \<Rightarrow> transport \<Rightarrow> event list \<Rightarrow> ('f::zero) Preamble result \<times> event list" where
  "FetchPreamble pf tr log =
     (case Write tr log '':WAV:PRE?'' of
        (Err e, log1) \<Rightarrow> (Err e, log1)
      | (Panic c, log1) \<Rightarrow> (Panic c, log1)
      | (Ok u, log1) \<Rightarrow>
          (case Read tr log1 100 of
             (Err e, log2) \<Rightarrow> (Err e, log2)
           | (Panic c, log2) \<Rightarrow> (Panic c, log2)
           | (Ok preamble, log2) \<Rightarrow> (parse_preamble pf (first_line preamble), log2)))"

section \<open>Notions used to state the properties\<close>

text \<open>
  The status of the write of \<open>msg\<close> after the events \<open>log\<close>, and the events after the
  commands \<open>cmds\<close> have been written one after the other.
\<close>

definition write_status :: "transport \<Rightarrow> event list \<Rightarrow> string \<Rightarrow> int" where
  "write_status tr log msg = snd (viWrite tr log msg)"

definition after_writes :: "event list \<Rightarrow> string list \<Rightarrow> event list" where
  "after_writes log cmds = log @ map Wrote cmds"

text \<open>The events of one completed poll, and the events after \<open>j\<close> completed polls.\<close>

definition poll_events :: "event list" where
  "poll_events = [Slept, Wrote ''TRIG:STAT?'', ReadReq 100]"

definition after_polls :: "event list \<Rightarrow> nat \<Rightarrow> event list" where
  "after_polls log j = log @ concat (replicate j poll_events)"

definition status_queries :: "event list \<Rightarrow> nat" where
  "status_queries log = length (filter (\<lambda>e. e = Wrote ''TRIG:STAT?'') log)"

text \<open>
  The fields 4, 5 and 7 are parsed with \<^verbatim>\<open>ParseFloat\<close>, the others with \<^verbatim>\<open>ParseInt\<close>;
  \<open>field_error pf k tok\<close> is the error of parsing the token \<open>tok\<close> as field \<open>k\<close>, if any.
\<close>

definition is_float_field :: "nat \<Rightarrow> bool" where
  "is_float_field k \<longleftrightarrow> k = 4 \<or> k = 5 \<or> k = 7"

definition field_error :: "(string \<Rightarrow> error + 'f) \<Rightarrow> nat \<Rightarrow> string \<Rightarrow> error option" where
  "field_error pf k tok =
     (if is_float_field k
      then (case pf tok of Inl e \<Rightarrow> Some e | Inr v \<Rightarrow> None)
      else (case ParseInt tok of Inl e \<Rightarrow> Some e | Inr v \<Rightarrow> None))"

text \<open>The ten blocks of the parser in their order.\<close>

definition blocks ::
  "(string \<Rightarrow> error + 'f) \<Rightarrow> string list \<Rightarrow> ('f Preamble \<Rightarrow> 'f Preamble result) list" where
  "blocks pf parts =
     [int_field parts 0 (\<lambda>v p. p\<lparr>Format := v\<rparr>),
      int_field parts 1 (\<lambda>v p. p\<lparr>Type := v\<rparr>),
      int_field parts 2 (\<lambda>v p. p\<lparr>Points := v\<rparr>),
      int_field parts 3 (\<lambda>v p. p\<lparr>Count := v\<rparr>),
      float_field pf parts 4 (\<lambda>v p. p\<lparr>Xincrement := v\<rparr>),
      float_field pf parts 5 (\<lambda>v p. p\<lparr>Xorigin := v\<rparr>),
      int_field parts 6 (\<lambda>v p. p\<lparr>Xref := v\<rparr>),
      float_field pf parts 7 (\<lambda>v p. p\<lparr>Yincrement := v\<rparr>),
      int_field parts 8 (\<lambda>v p. p\<lparr>Yorigin := v\<rparr>),
      int_field parts 9 (\<lambda>v p. p\<lparr>Yref := v\<rparr>)]"

text \<open>
  Transports to run the program on: one whose writes report no byte written and whose
  reads return three bytes, both with status \<^verbatim>\<open>vi.SUCCESS\<close>; one whose first write fails;
  and one that answers the status query with \<^verbatim>\<open>RUN\<close> twice and with \<^verbatim>\<open>STOP\<close> from the
  third read on.
\<close>

definition short_transport :: transport where
  "short_transport =
     \<lparr>viWrite = (\<lambda>log msg. (0, SUCCESS)),
      viRead = (\<lambda>log n. (slice_of [0x23, 0x39, 0x0A], 3, SUCCESS))\<rparr>"

definition third_write_fails :: transport where
  "third_write_fails =
     \<lparr>viWrite = (\<lambda>log msg. if length log = 2 then (0, - 1) else (of_nat (length msg), SUCCESS)),
      viRead = (\<lambda>log n. (slice_of [], 0, SUCCESS))\<rparr>"

definition stops_at_third :: transport where
  "stops_at_third =
     \<lparr>viWrite = (\<lambda>log msg. (of_nat (length msg), SUCCESS)),
      viRead = (\<lambda>log n. (slice_of (bytes_of (if 8 \<le> length log then ''STOP\<newline>'' else ''RUN\<newline>'')),
                          (if 8 \<le> length log then 5 else 4), SUCCESS))\<rparr>"

definition never_stops :: transport where
  "never_stops =
     \<lparr>viWrite = (\<lambda>log msg. (of_nat (length msg), SUCCESS)),
      viRead = (\<lambda>log n. (slice_of (bytes_of ''RUN\<newline>''), 4, SUCCESS))\<rparr>"

section \<open>Properties of the edge extraction\<close>

lemma mark_pins_Suc:
  "mark_pins (Suc n) b l ts sc =
     (if pin_changed b l n then (mark_pins n b l ts sc)(n \<mapsto> ts) else mark_pins n b l ts sc)"
  by (simp add: mark_pins_def)

lemma mark_pins_cases:
  "mark_pins n b l ts sc i = Some t \<Longrightarrow> sc i = Some t \<or> t = ts"
proof (induction n arbitrary: t)
  case 0
  then show ?case by (simp add: mark_pins_def)
next
  case (Suc n)
  then show ?case by (auto simp: mark_pins_Suc split: if_splits)
qed

lemma find_edges_snoc:
  "find_edges ps (xs @ [b]) = edge_step (length ps) b (find_edges ps xs)"
  by (simp add: find_edges_def)

lemma find_edges_Nil: "find_edges ps [] = edges_init"
  by (simp add: find_edges_def)

lemma timestamp_edge_step: "timestamp (edge_step n b s) = timestamp s + 1"
  by (simp add: edge_step_def Let_def)

lemma timestamp_find_edges: "timestamp (find_edges ps xs) = of_nat (length xs)"
proof (induction xs rule: rev_induct)
  case Nil
  show ?case by (simp add: find_edges_Nil edges_init_def)
next
  case (snoc b xs)
  then show ?case by (simp add: find_edges_snoc timestamp_edge_step)
qed

lemma last_byte_find_edges:
  "last_byte (find_edges ps xs) = (if xs = [] then 0 else last xs)"
  by (cases xs rule: rev_cases) (simp_all add: find_edges_Nil edges_init_def find_edges_snoc edge_step_def Let_def)

lemma transitions_edge_step:
  "transitions (edge_step n b s) =
     (if b \<noteq> last_byte s then (transitions s)(timestamp s \<mapsto> b) else transitions s)"
  by (simp add: edge_step_def Let_def)

lemma signalChanges_edge_step:
  "signalChanges (edge_step n b s) =
     (if b \<noteq> last_byte s then mark_pins n b (last_byte s) (timestamp s) (signalChanges s)
      else signalChanges s)"
  by (simp add: edge_step_def Let_def)

lemma edge_step_keeps_keys:
  "transitions s t \<noteq> None \<Longrightarrow> transitions (edge_step n b s) t \<noteq> None"
  by (simp add: transitions_edge_step)

lemma find_edges_key0: "transitions (find_edges ps xs) 0 \<noteq> None"
proof (induction xs rule: rev_induct)
  case Nil
  show ?case by (simp add: find_edges_Nil edges_init_def)
next
  case (snoc b xs)
  then show ?case by (simp add: find_edges_snoc edge_step_keeps_keys)
qed

lemma edge_step_changes_in_log:
  assumes inv: "\<And>i t. signalChanges s i = Some t \<Longrightarrow> transitions s t \<noteq> None"
    and new: "signalChanges (edge_step n b s) i = Some t"
  shows "transitions (edge_step n b s) t \<noteq> None"
proof (cases "b = last_byte s")
  case True
  with new inv show ?thesis
    by (simp add: signalChanges_edge_step transitions_edge_step)
next
  case False
  with new have "mark_pins n b (last_byte s) (timestamp s) (signalChanges s) i = Some t"
    by (simp add: signalChanges_edge_step)
  then have "signalChanges s i = Some t \<or> t = timestamp s"
    by (rule mark_pins_cases)
  with inv False show ?thesis
    by (auto simp: transitions_edge_step)
qed

lemma find_edges_changes_in_log:
  "signalChanges (find_edges ps xs) i = Some t \<Longrightarrow> transitions (find_edges ps xs) t \<noteq> None"
proof (induction xs arbitrary: i t rule: rev_induct)
  case Nil
  then show ?case by (simp add: find_edges_Nil edges_init_def)
next
  case (snoc b xs)
  show ?case
    unfolding find_edges_snoc
    by (rule edge_step_changes_in_log [where i = i]) (use snoc in \<open>simp_all add: find_edges_snoc\<close>)
qed

lemma unat_stamp: "n < 2 ^ 64 \<Longrightarrow> unat (of_nat n :: int64) = n"
  by (simp add: unat_of_nat)

lemma find_edges_changes_value:
  "length xs < 2 ^ 64 \<Longrightarrow> signalChanges (find_edges ps xs) i = Some t \<Longrightarrow>
     unat t < length xs \<and> transitions (find_edges ps xs) t = Some (xs ! unat t)"
proof (induction xs arbitrary: i t rule: rev_induct)
  case Nil
  then show ?case by (simp add: find_edges_Nil edges_init_def)
next
  case (snoc b xs)
  let ?s = "find_edges ps xs"
  have len: "length xs < 2 ^ 64" using snoc.prems(1) by simp
  have ts: "timestamp ?s = of_nat (length xs)" by (rule timestamp_find_edges)
  have uts: "unat (timestamp ?s) = length xs" using len by (simp add: ts unat_stamp)
  have old: "unat t < length (xs @ [b]) \<and> transitions (edge_step (length ps) b ?s) t = Some ((xs @ [b]) ! unat t)"
    if "signalChanges ?s i = Some t" for t
  proof -
    from snoc.IH [OF len that] have a: "unat t < length xs" and b: "transitions ?s t = Some (xs ! unat t)"
      by simp_all
    from a uts have "t \<noteq> timestamp ?s" by auto
    with a b show ?thesis by (simp add: transitions_edge_step nth_append)
  qed
  show ?case
  proof (cases "b = last_byte ?s")
    case True
    with snoc.prems(2) have "signalChanges ?s i = Some t"
      by (simp add: find_edges_snoc signalChanges_edge_step)
    then show ?thesis unfolding find_edges_snoc by (rule old)
  next
    case False
    with snoc.prems(2) have "mark_pins (length ps) b (last_byte ?s) (timestamp ?s) (signalChanges ?s) i = Some t"
      by (simp add: find_edges_snoc signalChanges_edge_step)
    then have "signalChanges ?s i = Some t \<or> t = timestamp ?s"
      by (rule mark_pins_cases)
    then show ?thesis
    proof
      assume "signalChanges ?s i = Some t"
      then show ?thesis unfolding find_edges_snoc by (rule old)
    next
      assume "t = timestamp ?s"
      with False uts show ?thesis
        by (simp add: find_edges_snoc transitions_edge_step)
    qed
  qed
qed

lemma find_edges_first:
  "length xs < 2 ^ 64 \<Longrightarrow>
     transitions (find_edges ps xs) 0 = Some (case xs of [] \<Rightarrow> 0 | b # _ \<Rightarrow> b)"
proof (induction xs rule: rev_induct)
  case Nil
  show ?case by (simp add: find_edges_Nil edges_init_def)
next
  case (snoc b xs)
  let ?s = "find_edges ps xs"
  have len: "length xs < 2 ^ 64" using snoc.prems by simp
  have ts: "timestamp ?s = of_nat (length xs)" by (rule timestamp_find_edges)
  have uts: "unat (timestamp ?s) = length xs" using len by (simp add: ts unat_stamp)
  show ?case
  proof (cases "xs = []")
    case True
    then show ?thesis
      by (simp add: find_edges_def edge_step_def edges_init_def Let_def)
  next
    case False
    with uts have "timestamp ?s \<noteq> 0" by auto
    then have keep: "transitions (find_edges ps (xs @ [b])) 0 = transitions ?s 0"
      by (simp add: find_edges_snoc transitions_edge_step)
    from False have "(case xs @ [b] of [] \<Rightarrow> 0 | c # _ \<Rightarrow> c) = (case xs of [] \<Rightarrow> 0 | c # _ \<Rightarrow> c)"
      by (cases xs) simp_all
    with keep snoc.IH [OF len] show ?thesis by simp
  qed
qed

lemma pin_changed_bit0: "pin_changed b l i \<longleftrightarrow> i < 8 \<and> bit b 0 \<noteq> bit l 0"
proof -
  have one: "x AND 1 = of_bool (bit x 0)" for x :: byte
    by (simp add: and_one_eq bit_0 mod_2_eq_odd)
  show ?thesis
    unfolding pin_changed_def one
    by (cases "bit b 0"; cases "bit l 0") (auto simp: push_bit_eq_0_iff)
qed

lemma find_edges_pins_sample:
  "signalChanges (find_edges pins [0x00, 0x00, 0x01, 0x01, 0x03]) 4 = Some 2"
  "transitions (find_edges pins [0x00, 0x00, 0x01, 0x01, 0x03]) 2 = Some 0x01"
  by (simp_all add: find_edges_def pins_def edges_init_def edge_step_def mark_pins_def pin_changed_def)

subsection \<open>The claims about edge extraction\<close>

text \<open>
  C1. The spec's example: payload \<open>[0x00, 0x00, 0x01, 0x01, 0x03]\<close> with the signal map
  \<open>{A:0, B:1}\<close>. The loop of \<^verbatim>\<open>main\<close> records transitions exactly at the indices 0, 2
  and 4, and signal A's latest change at 2; but it records signal B's latest change at 2
  as well, not at 4: the test \<^verbatim>\<open>b&1<<i != last&1<<i\<close> compares bit 0 shifted to
  position \<open>i\<close>, not bit \<open>i\<close>, so at index 2 (bit 0 flips) every pin is marked and at
  index 4 (bit 1 flips) none is.
\<close>

theorem find_edges_spec_example:
  "find_edges [(''A'', 0), (''B'', 1)] [0x00, 0x00, 0x01, 0x01, 0x03] =
     \<lparr>transitions = [0 \<mapsto> 0x00, 2 \<mapsto> 0x01, 4 \<mapsto> 0x03],
      signalChanges = [0 \<mapsto> 2, 1 \<mapsto> 2],
      timestamp = 5, last_byte = 0x03\<rparr>"
  by (simp add: find_edges_def edges_init_def edge_step_def mark_pins_def pin_changed_def)

text \<open>
  C9, as stated: the final transition log holds the entry \<open>(0, 0x00)\<close> for every payload.
  It does not for the one-byte payload \<open>[0x01]\<close>: the first iteration overwrites
  \<^verbatim>\<open>transitions[0]\<close> with \<open>0x01\<close>.
\<close>

theorem index0_entry_overwritten:
  "transitions (find_edges pins [0x01]) 0 \<noteq> Some 0x00"
  by (simp add: find_edges_def pins_def edges_init_def edge_step_def)

text \<open>
  C9, amended: for every payload the final transition log has an entry at index 0, and
  (for a payload of fewer than \<open>2^63\<close> bytes, as every Go slice is) its value is the first
  sample byte, \<open>0x00\<close> for the empty payload. So the entry is \<open>(0, 0x00)\<close> when the first
  sample byte is zero.
\<close>

theorem index0_entry:
  "transitions (find_edges ps data) 0 \<noteq> None \<and>
   (length data < 2 ^ 63 \<longrightarrow>
      transitions (find_edges ps data) 0 = Some (case data of [] \<Rightarrow> 0x00 | b # _ \<Rightarrow> b))"
proof -
  have "transitions (find_edges ps data) 0 = Some (case data of [] \<Rightarrow> 0x00 | b # _ \<Rightarrow> b)"
    if "length data < 2 ^ 63"
  proof -
    have "(2::nat) ^ 63 \<le> 2 ^ 64" by simp
    with that have "length data < 2 ^ 64" by (rule less_le_trans)
    then show ?thesis by (rule find_edges_first)
  qed
  then show ?thesis by (simp add: find_edges_key0)
qed

theorem index0_entry_witness:
  "length [0x00, 0x00, 0x01, 0x01, 0x03 :: byte] < 2 ^ 63 \<and>
   transitions (find_edges pins [0x00, 0x00, 0x01, 0x01, 0x03]) 0 = Some 0x00"
  using index0_entry [of pins "[0x00, 0x00, 0x01, 0x01, 0x03]"] by simp

text \<open>
  C10. After edge extraction, every timestamp that \<^verbatim>\<open>signalChanges\<close> assigns to a pin
  index is a key of \<^verbatim>\<open>transitions\<close>; and (for a payload of fewer than \<open>2^63\<close> bytes) the
  entry at that key is the byte of the payload at that sample index.
\<close>

theorem latest_change_is_transition:
  assumes "signalChanges (find_edges ps data) i = Some t"
  shows "transitions (find_edges ps data) t \<noteq> None \<and>
         (length data < 2 ^ 63 \<longrightarrow>
            unat t < length data \<and> transitions (find_edges ps data) t = Some (data ! unat t))"
proof -
  have "unat t < length data \<and> transitions (find_edges ps data) t = Some (data ! unat t)"
    if "length data < 2 ^ 63"
  proof -
    have "(2::nat) ^ 63 \<le> 2 ^ 64" by simp
    with that have "length data < 2 ^ 64" by (rule less_le_trans)
    from find_edges_changes_value [OF this assms] show ?thesis .
  qed
  with find_edges_changes_in_log [OF assms] show ?thesis by blast
qed

theorem latest_change_is_transition_witness:
  "signalChanges (find_edges pins [0x00, 0x00, 0x01, 0x01, 0x03]) 4 = Some 2 \<and>
   length [0x00, 0x00, 0x01, 0x01, 0x03 :: byte] < 2 ^ 63 \<and>
   transitions (find_edges pins [0x00, 0x00, 0x01, 0x01, 0x03]) 2 = Some 0x01"
proof -
  have h: "signalChanges (find_edges pins [0x00, 0x00, 0x01, 0x01, 0x03]) 4 = Some 2"
    by (simp add: find_edges_pins_sample)
  from latest_change_is_transition [OF h] h show ?thesis by simp
qed

section \<open>Properties of results\<close>

lemma and_then_simps [simp]:
  "and_then (Ok x) f = f x"
  "and_then (Err e) f = Err e"
  "and_then (Panic c) f = Panic c"
  by (simp_all add: and_then_def)

section \<open>Properties of frames, command batches and the poll loop\<close>

lemma split_frame_short: "slen d < 12 \<Longrightarrow> split_frame d = Panic SliceBoundsOutOfRange"
  by (simp add: split_frame_def reslice_def)

lemma split_frame_long:
  assumes "slice_ok d" and "12 \<le> slen d"
  shows "split_frame d =
           Ok (\<lparr>backing = backing d, slen = 11\<rparr>,
               \<lparr>backing = drop 11 (backing d), slen = slen d - 12\<rparr>)"
  using assms by (simp add: split_frame_def reslice_def slice_ok_def cap_def nat_diff_distrib')

lemma elems_header:
  "12 \<le> slen d \<Longrightarrow> elems \<lparr>backing = backing d, slen = 11\<rparr> = take 11 (elems d)"
  by (simp add: elems_def min_def)

lemma elems_data:
  "12 \<le> slen d \<Longrightarrow>
     elems \<lparr>backing = drop 11 (backing d), slen = slen d - 12\<rparr> = drop 11 (take (slen d - 1) (elems d))"
  by (simp add: elems_def drop_take min_def)

lemma length_elems: "slice_ok d \<Longrightarrow> length (elems d) = slen d"
  by (simp add: elems_def slice_ok_def cap_def)

lemma frame_parts:
  assumes "12 \<le> length xs"
  shows "xs = take 11 xs @ drop 11 (take (length xs - 1) xs) @ [xs ! (length xs - 1)]"
proof -
  have "xs = take (length xs - 1) xs @ drop (length xs - 1) xs" by simp
  moreover have "drop (length xs - 1) xs = [xs ! (length xs - 1)]"
    using assms by (metis (no_types) Cons_nth_drop_Suc Suc_diff_1 diff_less drop_all le_refl
        less_le_trans zero_less_numeral zero_less_one)
  moreover have "take (length xs - 1) xs = take 11 xs @ drop 11 (take (length xs - 1) xs)"
  proof -
    have "take 11 (take (length xs - 1) xs) = take 11 xs" using assms by (auto simp: min_def)
    then show ?thesis by (metis append_take_drop_id)
  qed
  ultimately show ?thesis by (metis append.assoc)
qed

lemma Write_eq:
  "Write tr log msg =
     (if write_status tr log msg < SUCCESS then Err (WriteFailed (write_status tr log msg)) else Ok (),
      log @ [Wrote msg])"
  by (simp add: Write_def write_status_def split: prod.splits)

lemma sendCommands_fails:
  "k < length cmds \<Longrightarrow>
   (\<forall>j<k. \<not> write_status tr (after_writes log (take j cmds)) (cmds ! j) < SUCCESS) \<Longrightarrow>
   write_status tr (after_writes log (take k cmds)) (cmds ! k) < SUCCESS \<Longrightarrow>
   sendCommands tr log cmds =
     (Err (WriteFailed (write_status tr (after_writes log (take k cmds)) (cmds ! k))),
      after_writes log (take (Suc k) cmds))"
proof (induction cmds arbitrary: k log)
  case Nil
  then show ?case by simp
next
  case (Cons c cs)
  show ?case
  proof (cases k)
    case 0
    with Cons.prems show ?thesis by (simp add: Write_eq after_writes_def)
  next
    case (Suc k')
    from Cons.prems(2) Suc have ok0: "\<not> write_status tr log c < SUCCESS"
      by (auto simp: after_writes_def dest: spec [of _ 0])
    have shift: "after_writes log (take (Suc j) (c # cs)) = after_writes (log @ [Wrote c]) (take j cs)" for j
      by (simp add: after_writes_def)
    have a: "k' < length cs" using Cons.prems(1) Suc by simp
    have b: "\<forall>j<k'. \<not> write_status tr (after_writes (log @ [Wrote c]) (take j cs)) (cs ! j) < SUCCESS"
    proof (intro allI impI)
      fix j assume "j < k'"
      then have "Suc j < k" using Suc by simp
      with Cons.prems(2) have "\<not> write_status tr (after_writes log (take (Suc j) (c # cs))) ((c # cs) ! Suc j) < SUCCESS"
        by blast
      then show "\<not> write_status tr (after_writes (log @ [Wrote c]) (take j cs)) (cs ! j) < SUCCESS"
        by (simp add: after_writes_def)
    qed
    have c: "write_status tr (after_writes (log @ [Wrote c]) (take k' cs)) (cs ! k') < SUCCESS"
      using Cons.prems(3) Suc by (simp add: after_writes_def)
    from Cons.IH [OF a b c] ok0 Suc show ?thesis
      by (simp add: Write_eq) (simp add: after_writes_def)
  qed
qed

lemma sendCommands_succeeds:
  "(\<forall>j<length cmds. \<not> write_status tr (after_writes log (take j cmds)) (cmds ! j) < SUCCESS) \<Longrightarrow>
   sendCommands tr log cmds = (Ok (), after_writes log cmds)"
proof (induction cmds arbitrary: log)
  case Nil
  then show ?case by (simp add: after_writes_def)
next
  case (Cons c cs)
  from Cons.prems have ok0: "\<not> write_status tr log c < SUCCESS"
    by (auto simp: after_writes_def dest: spec [of _ 0])
  have shift: "after_writes log (take (Suc j) (c # cs)) = after_writes (log @ [Wrote c]) (take j cs)" for j
    by (simp add: after_writes_def)
  have b: "\<forall>j<length cs. \<not> write_status tr (after_writes (log @ [Wrote c]) (take j cs)) (cs ! j) < SUCCESS"
  proof (intro allI impI)
    fix j assume "j < length cs"
    then have "Suc j < length (c # cs)" by simp
    with Cons.prems have "\<not> write_status tr (after_writes log (take (Suc j) (c # cs))) ((c # cs) ! Suc j) < SUCCESS"
      by blast
    then show "\<not> write_status tr (after_writes (log @ [Wrote c]) (take j cs)) (cs ! j) < SUCCESS"
      by (simp add: after_writes_def)
  qed
  from Cons.IH [OF b] ok0 show ?case
    by (simp add: Write_eq) (simp add: after_writes_def)
qed


lemma Read_eq:
  "Read tr log n =
     (if snd (snd (viRead tr log n)) < SUCCESS then Err (ReadFailed (snd (snd (viRead tr log n))))
      else Ok (fst (viRead tr log n)),
      log @ [ReadReq n])"
  by (simp add: Read_def split: prod.splits)

lemma slice_of_simps [simp]:
  "slice_ok (slice_of xs)" "slen (slice_of xs) = length xs" "elems (slice_of xs) = xs"
  by (simp_all add: slice_ok_def slice_of_def cap_def elems_def)

lemma unat_of_char: "unat (of_char c :: byte) = of_char c"
proof -
  have "(of_char c :: byte) = of_nat (of_char c)"
    by (simp only: of_nat_of_char)
  then have "unat (of_char c :: byte) = unat (of_nat (of_char c) :: byte)"
    by (rule arg_cong)
  also have "\<dots> = (of_char c :: nat) mod 2 ^ 8"
    by (simp add: unat_of_nat)
  also have "\<dots> = of_char c"
    by simp
  finally show ?thesis .
qed

lemma string_of_bytes_of [simp]: "string_of (bytes_of s) = s"
  by (simp add: string_of_def bytes_of_def unat_of_char comp_def)

lemma poll_once_eq:
  "poll_once tr log =
     (if write_status tr (log @ [Slept]) ''TRIG:STAT?'' < SUCCESS
      then (Err (WriteFailed (write_status tr (log @ [Slept]) ''TRIG:STAT?'')),
            log @ [Slept, Wrote ''TRIG:STAT?''])
      else (case Read tr (log @ [Slept, Wrote ''TRIG:STAT?'']) 100 of
              (Err e, log2) \<Rightarrow> (Err e, log2)
            | (Panic c, log2) \<Rightarrow> (Panic c, log2)
            | (Ok d, log2) \<Rightarrow> (Ok (first_line d = ''STOP''), log2)))"
  by (simp add: poll_once_def Write_eq)

lemma poll_once_log:
  "fst (poll_once tr log) = Ok b \<Longrightarrow> snd (poll_once tr log) = log @ poll_events"
  by (simp add: poll_once_eq Read_eq poll_events_def split: if_splits)

lemma poll_once_queries:
  "status_queries (snd (poll_once tr log)) = Suc (status_queries log)"
  by (simp add: poll_once_eq Read_eq status_queries_def)

lemma after_polls_0 [simp]: "after_polls log 0 = log"
  by (simp add: after_polls_def)

lemma after_polls_Suc: "after_polls log (Suc j) = after_polls (log @ poll_events) j"
  by (simp add: after_polls_def)

lemma poll_once_pair:
  "fst (poll_once tr log) = Ok b \<Longrightarrow> poll_once tr log = (Ok b, log @ poll_events)"
  using poll_once_log [of tr log b] by (cases "poll_once tr log") simp

lemma poll_loop_stop:
  "i + k < 60 \<Longrightarrow>
   (\<forall>j<k. fst (poll_once tr (after_polls log j)) = Ok False) \<Longrightarrow>
   fst (poll_once tr (after_polls log k)) = Ok True \<Longrightarrow>
   poll_loop tr i log = (Ok (), after_polls log (Suc k))"
proof (induction k arbitrary: i log)
  case 0
  then have "poll_once tr log = (Ok True, log @ poll_events)"
    by (simp add: poll_once_pair)
  with 0 show ?case
    by (simp add: poll_loop.simps [of tr i log] after_polls_Suc)
next
  case (Suc k)
  from Suc.prems(2) have "fst (poll_once tr (after_polls log 0)) = Ok False" by blast
  then have first: "poll_once tr log = (Ok False, log @ poll_events)"
    by (simp add: poll_once_pair)
  have a: "Suc i + k < 60" using Suc.prems(1) by simp
  have b: "\<forall>j<k. fst (poll_once tr (after_polls (log @ poll_events) j)) = Ok False"
    using Suc.prems(2) by (auto simp flip: after_polls_Suc)
  have c: "fst (poll_once tr (after_polls (log @ poll_events) k)) = Ok True"
    using Suc.prems(3) by (simp flip: after_polls_Suc)
  have "poll_loop tr (Suc i) (log @ poll_events) = (Ok (), after_polls (log @ poll_events) (Suc k))"
    by (rule Suc.IH [OF a b c])
  with first Suc.prems(1) show ?case
    by (simp add: poll_loop.simps [of tr i log] after_polls_Suc [of log "Suc k"])
qed

lemma poll_loop_timeout:
  "n = 60 - i \<Longrightarrow> i \<le> 60 \<Longrightarrow>
   (\<forall>j<n. fst (poll_once tr (after_polls log j)) = Ok False) \<Longrightarrow>
   poll_loop tr i log = (Err TriggerTimeout, after_polls log n)"
proof (induction n arbitrary: i log)
  case 0
  then show ?case by (simp add: poll_loop.simps [of tr i log])
next
  case (Suc n)
  from Suc.prems(3) have "fst (poll_once tr (after_polls log 0)) = Ok False" by blast
  then have first: "poll_once tr log = (Ok False, log @ poll_events)"
    by (simp add: poll_once_pair)
  have a: "n = 60 - Suc i" and a': "Suc i \<le> 60" and lt: "i < 60" using Suc.prems(1) by simp_all
  have b: "\<forall>j<n. fst (poll_once tr (after_polls (log @ poll_events) j)) = Ok False"
    using Suc.prems(3) by (auto simp flip: after_polls_Suc)
  have "poll_loop tr (Suc i) (log @ poll_events) = (Err TriggerTimeout, after_polls (log @ poll_events) n)"
    by (rule Suc.IH [OF a a' b])
  with first lt show ?case
    by (simp add: poll_loop.simps [of tr i log] after_polls_Suc [of log n])
qed

lemma poll_loop_bound:
  "status_queries (snd (poll_loop tr i log)) \<le> status_queries log + (60 - i)"
proof (induction tr i log rule: poll_loop.induct)
  case (1 tr i log)
  show ?case
  proof (cases "i < 60")
    case False
    then show ?thesis by (simp add: poll_loop.simps [of tr i log])
  next
    case True
    obtain r log' where p: "poll_once tr log = (r, log')" by (cases "poll_once tr log")
    have q: "status_queries log' = Suc (status_queries log)"
      using poll_once_queries [of tr log] p by simp
    show ?thesis
    proof (cases r)
      case (Ok stopped)
      show ?thesis
      proof (cases stopped)
        case True
        with \<open>i < 60\<close> p Ok q show ?thesis by (simp add: poll_loop.simps [of tr i log])
      next
        case False
        from "1.IH" [OF \<open>i < 60\<close> p [symmetric] Ok False]
        have "status_queries (snd (poll_loop tr (i + 1) log')) \<le> status_queries log' + (60 - (i + 1))"
          by simp
        with \<open>i < 60\<close> p Ok False q show ?thesis by (simp add: poll_loop.simps [of tr i log])
      qed
    next
      case (Err e)
      with \<open>i < 60\<close> p q show ?thesis by (simp add: poll_loop.simps [of tr i log])
    next
      case (Panic c)
      with \<open>i < 60\<close> p q show ?thesis by (simp add: poll_loop.simps [of tr i log])
    qed
  qed
qed



lemma length_Trigger_setup: "length Trigger_setup = 21"
  by (simp add: Trigger_setup_def)

lemma length_after_writes: "length (after_writes log cmds) = length log + length cmds"
  by (simp add: after_writes_def)

lemma short_transport_writes: "\<not> write_status short_transport log msg < SUCCESS"
  by (simp add: write_status_def short_transport_def)

lemma short_transport_sends:
  "sendCommands short_transport log cmds = (Ok (), after_writes log cmds)"
  by (rule sendCommands_succeeds) (simp add: short_transport_writes)

lemma FetchWaveformData_short:
  assumes "sendCommands tr log (FetchWaveformData_setup source) = (Ok (), log1)"
    and "Read tr log1 125000 = (Ok d, log2)"
    and "slen d < 12"
  shows "FetchWaveformData tr log source = (Panic SliceBoundsOutOfRange, log2)"
  using assms by (simp add: FetchWaveformData_def split_frame_short)

subsection \<open>The claims about the waveform frame\<close>

text \<open>
  C3, as stated: when the read returns fewer than 12 bytes, \<^verbatim>\<open>FetchWaveformData\<close> fails
  with a returned error. Against a transport whose read returns three bytes with status
  \<^verbatim>\<open>vi.SUCCESS\<close>, the six commands are written, the read succeeds, and the call ends in
  the run-time panic of a slice expression out of range: no error value is returned.
\<close>

theorem short_read_is_no_error:
  "FetchWaveformData short_transport [] ''D0'' =
     (Panic SliceBoundsOutOfRange,
      after_writes [] (FetchWaveformData_setup ''D0'') @ [ReadReq 125000])"
  by (simp add: FetchWaveformData_def short_transport_sends Read_eq)
     (simp add: short_transport_def split_frame_short)

text \<open>
  C3, amended: whenever the commands have been written and the read returns, without an
  error, fewer than the 12 bytes of the framing envelope, \<^verbatim>\<open>FetchWaveformData\<close> returns
  neither a frame nor an error: evaluating \<^verbatim>\<open>d[0:11], d[11 : len(d)-1]\<close> panics with a
  slice bound out of range.
\<close>

theorem short_read_panics:
  assumes "sendCommands tr log (FetchWaveformData_setup source) = (Ok (), log1)"
    and "Read tr log1 125000 = (Ok d, log2)"
    and "slen d < 12"
  shows "FetchWaveformData tr log source = (Panic SliceBoundsOutOfRange, log2)"
  using assms by (rule FetchWaveformData_short)

theorem short_read_panics_witness:
  "sendCommands short_transport [Slept] (FetchWaveformData_setup ''D8'')
     = (Ok (), after_writes [Slept] (FetchWaveformData_setup ''D8'')) \<and>
   Read short_transport (after_writes [Slept] (FetchWaveformData_setup ''D8'')) 125000
     = (Ok (slice_of [0x23, 0x39, 0x0A]),
        after_writes [Slept] (FetchWaveformData_setup ''D8'') @ [ReadReq 125000]) \<and>
   slen (slice_of [0x23, 0x39, 0x0A :: byte]) < 12 \<and>
   FetchWaveformData short_transport [Slept] ''D8''
     = (Panic SliceBoundsOutOfRange,
        after_writes [Slept] (FetchWaveformData_setup ''D8'') @ [ReadReq 125000])"
proof -
  have a: "sendCommands short_transport [Slept] (FetchWaveformData_setup ''D8'')
             = (Ok (), after_writes [Slept] (FetchWaveformData_setup ''D8''))"
    by (rule short_transport_sends)
  have b: "Read short_transport (after_writes [Slept] (FetchWaveformData_setup ''D8'')) 125000
             = (Ok (slice_of [0x23, 0x39, 0x0A]),
                after_writes [Slept] (FetchWaveformData_setup ''D8'') @ [ReadReq 125000])"
    by (simp add: Read_eq) (simp add: short_transport_def)
  have c: "slen (slice_of [0x23, 0x39, 0x0A :: byte]) < 12"
    by simp
  from short_read_panics [OF a b c] a b c show ?thesis by blast
qed

text \<open>
  C8. A response \<open>d\<close> of length \<open>L \<ge> 12\<close> is split into the header \<^verbatim>\<open>d[0:11]\<close> of
  length 11 and the payload \<^verbatim>\<open>d[11:L-1]\<close> of length \<open>L - 12\<close>; the response is the
  header, then the payload, then the single byte at index \<open>L - 1\<close>, which is in neither.
\<close>

theorem frame_split:
  assumes "slice_ok d" and "12 \<le> slen d"
  shows "\<exists>header payload.
           split_frame d = Ok (header, payload) \<and>
           elems header = take 11 (elems d) \<and> length (elems header) = 11 \<and>
           elems payload = drop 11 (take (slen d - 1) (elems d)) \<and>
           length (elems payload) = slen d - 12 \<and>
           elems d = elems header @ elems payload @ [elems d ! (slen d - 1)]"
proof -
  let ?h = "\<lparr>backing = backing d, slen = 11\<rparr>"
  let ?p = "\<lparr>backing = drop 11 (backing d), slen = slen d - 12\<rparr>"
  have len: "length (elems d) = slen d" using assms(1) by (rule length_elems)
  have h: "elems ?h = take 11 (elems d)" using assms(2) by (rule elems_header)
  have p: "elems ?p = drop 11 (take (slen d - 1) (elems d))" using assms(2) by (rule elems_data)
  have lh: "length (elems ?h) = 11" using assms(2) by (simp add: h len)
  have lp: "length (elems ?p) = slen d - 12" using assms(2) by (simp add: p len)
  have "12 \<le> length (elems d)" using assms(2) by (simp add: len)
  then have "elems d = take 11 (elems d) @ drop 11 (take (length (elems d) - 1) (elems d))
                @ [elems d ! (length (elems d) - 1)]"
    by (rule frame_parts)
  then have all: "elems d = elems ?h @ elems ?p @ [elems d ! (slen d - 1)]"
    by (simp only: h p len)
  from split_frame_long [OF assms] h lh p lp all show ?thesis by blast
qed

theorem frame_split_witness:
  "slice_ok (slice_of (replicate 125000 (0::byte))) \<and>
   12 \<le> slen (slice_of (replicate 125000 (0::byte))) \<and>
   (\<exists>header payload.
      split_frame (slice_of (replicate 125000 0)) = Ok (header, payload) \<and>
      length (elems header) = 11 \<and> length (elems payload) = 124988)"
proof -
  have a: "slice_ok (slice_of (replicate 125000 (0::byte)))" by simp
  have b: "12 \<le> slen (slice_of (replicate 125000 (0::byte)))" by simp
  have c: "slen (slice_of (replicate 125000 (0::byte))) - 12 = 124988" by simp
  from frame_split [OF a b] obtain header payload where
    "split_frame (slice_of (replicate 125000 0)) = Ok (header, payload)"
    "length (elems header) = 11"
    "length (elems payload) = slen (slice_of (replicate 125000 (0::byte))) - 12"
    by blast
  with a b c show ?thesis by (simp only:) blast
qed

subsection \<open>The claims about the instrument controller\<close>

text \<open>
  C5, as stated: a batch fails at the first command whose write returns a byte count
  different from the command's length. Against a transport whose writes all return the
  count 0 with status \<^verbatim>\<open>vi.SUCCESS\<close>, the count of the first command's write is not its
  length, yet \<^verbatim>\<open>Trigger\<close> returns no error and writes all 21 commands.
\<close>

theorem short_write_count_is_ignored:
  "fst (viWrite short_transport [] '':CHAN1:DISP ON'') \<noteq> of_nat (length '':CHAN1:DISP ON'') \<and>
   Trigger short_transport [] = (Ok (), after_writes [] Trigger_setup)"
  by (simp add: Trigger_def short_transport_sends) (simp add: short_transport_def)

text \<open>
  C5, amended: a batch of commands is written in order. It fails at the first command
  whose write returns a status below \<^verbatim>\<open>vi.SUCCESS\<close>, with the error of that status, and
  nothing after that command is written; the byte count that a write returns is not
  examined. When no write returns such a status, every command is written and the batch
  succeeds.
\<close>

theorem sendCommands_stops_at_failed_write:
  "(k < length cmds \<and>
    (\<forall>j<k. \<not> write_status tr (after_writes log (take j cmds)) (cmds ! j) < SUCCESS) \<and>
    write_status tr (after_writes log (take k cmds)) (cmds ! k) < SUCCESS \<longrightarrow>
      sendCommands tr log cmds =
        (Err (WriteFailed (write_status tr (after_writes log (take k cmds)) (cmds ! k))),
         after_writes log (take (Suc k) cmds))) \<and>
   ((\<forall>j<length cmds. \<not> write_status tr (after_writes log (take j cmds)) (cmds ! j) < SUCCESS) \<longrightarrow>
      sendCommands tr log cmds = (Ok (), after_writes log cmds))"
  using sendCommands_fails [of k cmds tr log] sendCommands_succeeds [of cmds tr log] by blast

theorem sendCommands_stops_at_failed_write_witness:
  "2 < length Trigger_setup \<and>
   \<not> write_status third_write_fails (after_writes [] (take 0 Trigger_setup)) (Trigger_setup ! 0) < SUCCESS \<and>
   \<not> write_status third_write_fails (after_writes [] (take 1 Trigger_setup)) (Trigger_setup ! 1) < SUCCESS \<and>
   write_status third_write_fails (after_writes [] (take 2 Trigger_setup)) (Trigger_setup ! 2) < SUCCESS \<and>
   Trigger third_write_fails [] =
     (Err (WriteFailed (- 1)),
      [Wrote '':CHAN1:DISP ON'', Wrote '':CHAN1:PROB 10'', Wrote '':CHAN1:UNIT VOLT'']) \<and>
   Trigger short_transport [] = (Ok (), map Wrote Trigger_setup)"
proof -
  have st: "write_status third_write_fails l m = (if length l = 2 then - 1 else SUCCESS)" for l m
    by (simp add: write_status_def third_write_fails_def)
  have a: "2 < length Trigger_setup" by (simp add: length_Trigger_setup)
  have b: "\<forall>j<2. \<not> write_status third_write_fails (after_writes [] (take j Trigger_setup)) (Trigger_setup ! j) < SUCCESS"
    by (simp add: st length_after_writes length_Trigger_setup)
  have c: "write_status third_write_fails (after_writes [] (take 2 Trigger_setup)) (Trigger_setup ! 2) < SUCCESS"
    by (simp add: st length_after_writes length_Trigger_setup SUCCESS_def)
  have d: "\<forall>j<length Trigger_setup.
      \<not> write_status short_transport (after_writes [] (take j Trigger_setup)) (Trigger_setup ! j) < SUCCESS"
    by (simp add: short_transport_writes)
  have v: "write_status third_write_fails (after_writes [] (take 2 Trigger_setup)) (Trigger_setup ! 2) = - 1"
    by (simp add: st length_after_writes length_Trigger_setup)
  have l: "after_writes [] (take (Suc 2) Trigger_setup) =
      [Wrote '':CHAN1:DISP ON'', Wrote '':CHAN1:PROB 10'', Wrote '':CHAN1:UNIT VOLT'']"
    by (simp add: after_writes_def Trigger_setup_def)
  have m: "after_writes [] Trigger_setup = map Wrote Trigger_setup"
    by (simp add: after_writes_def)
  have "sendCommands third_write_fails [] Trigger_setup =
      (Err (WriteFailed (write_status third_write_fails (after_writes [] (take 2 Trigger_setup)) (Trigger_setup ! 2))),
       after_writes [] (take (Suc 2) Trigger_setup))"
    using sendCommands_stops_at_failed_write [of 2 Trigger_setup third_write_fails "[]"] a b c
    by blast
  then have e: "Trigger third_write_fails [] =
     (Err (WriteFailed (- 1)),
      [Wrote '':CHAN1:DISP ON'', Wrote '':CHAN1:PROB 10'', Wrote '':CHAN1:UNIT VOLT''])"
    by (simp only: Trigger_def v l)
  have "sendCommands short_transport [] Trigger_setup = (Ok (), after_writes [] Trigger_setup)"
    using sendCommands_stops_at_failed_write [of 0 Trigger_setup short_transport "[]"] d
    by blast
  then have f: "Trigger short_transport [] = (Ok (), map Wrote Trigger_setup)"
    by (simp only: Trigger_def m)
  have b0: "\<not> write_status third_write_fails (after_writes [] (take 0 Trigger_setup)) (Trigger_setup ! 0) < SUCCESS"
    by (simp add: st length_after_writes length_Trigger_setup)
  have b1: "\<not> write_status third_write_fails (after_writes [] (take 1 Trigger_setup)) (Trigger_setup ! 1) < SUCCESS"
    by (simp add: st length_after_writes length_Trigger_setup)
  from a b0 b1 c e f show ?thesis by blast
qed

lemma length_after_polls: "length (after_polls log j) = length log + 3 * j"
  by (induction j arbitrary: log) (simp_all add: after_polls_Suc poll_events_def)

lemma status_queries_after_polls: "status_queries (after_polls log j) = status_queries log + j"
  by (induction j arbitrary: log) (simp_all add: after_polls_Suc poll_events_def status_queries_def)

lemma first_line_bytes: "first_line (slice_of (bytes_of s)) = hd (Split s CHR 0x0A)"
  by (simp add: first_line_def)

lemma stops_at_third_poll: "fst (poll_once stops_at_third log) = Ok (6 \<le> length log)"
  by (simp add: poll_once_eq Read_eq write_status_def stops_at_third_def SUCCESS_def first_line_bytes)

lemma never_stops_poll: "fst (poll_once never_stops log) = Ok False"
  by (simp add: poll_once_eq Read_eq write_status_def never_stops_def SUCCESS_def first_line_bytes)

text \<open>
  C4. \<^verbatim>\<open>WaitForCapture\<close> returns success at the first poll whose response has the first
  line \<^verbatim>\<open>STOP\<close>: if the polls before poll \<open>k < 60\<close> complete without a match and poll \<open>k\<close>
  matches, it returns nil after exactly \<open>k + 1\<close> polls. If 60 polls complete without a
  match it returns the timeout error after exactly those 60 polls. In every case it
  writes the status query at most 60 times.
\<close>

theorem WaitForCapture_polls:
  "(k < 60 \<and>
    (\<forall>j<k. fst (poll_once tr (after_polls log j)) = Ok False) \<and>
    fst (poll_once tr (after_polls log k)) = Ok True \<longrightarrow>
      WaitForCapture tr log = (Ok (), after_polls log (Suc k))) \<and>
   ((\<forall>j<60. fst (poll_once tr (after_polls log j)) = Ok False) \<longrightarrow>
      WaitForCapture tr log = (Err TriggerTimeout, after_polls log 60)) \<and>
   status_queries (snd (WaitForCapture tr log)) \<le> status_queries log + 60"
proof -
  have "WaitForCapture tr log = (Ok (), after_polls log (Suc k))"
    if "k < 60" "\<forall>j<k. fst (poll_once tr (after_polls log j)) = Ok False"
      "fst (poll_once tr (after_polls log k)) = Ok True"
    unfolding WaitForCapture_def using that by (intro poll_loop_stop) simp_all
  moreover have "WaitForCapture tr log = (Err TriggerTimeout, after_polls log 60)"
    if "\<forall>j<60. fst (poll_once tr (after_polls log j)) = Ok False"
    unfolding WaitForCapture_def using that by (intro poll_loop_timeout) simp_all
  moreover have "status_queries (snd (WaitForCapture tr log)) \<le> status_queries log + 60"
    unfolding WaitForCapture_def using poll_loop_bound [of tr 0 log] by simp
  ultimately show ?thesis by blast
qed

theorem WaitForCapture_polls_witness:
  "fst (poll_once stops_at_third (after_polls [] 0)) = Ok False \<and>
   fst (poll_once stops_at_third (after_polls [] 1)) = Ok False \<and>
   fst (poll_once stops_at_third (after_polls [] 2)) = Ok True \<and>
   WaitForCapture stops_at_third [] = (Ok (), after_polls [] 3) \<and>
   fst (poll_once never_stops (after_polls [] 59)) = Ok False \<and>
   WaitForCapture never_stops [] = (Err TriggerTimeout, after_polls [] 60) \<and>
   status_queries (after_polls [] 60) = 60"
proof -
  have a: "\<forall>j<2. fst (poll_once stops_at_third (after_polls [] j)) = Ok False"
    by (simp add: stops_at_third_poll length_after_polls)
  have b: "fst (poll_once stops_at_third (after_polls [] 2)) = Ok True"
    by (simp add: stops_at_third_poll length_after_polls)
  have c: "\<forall>j<60. fst (poll_once never_stops (after_polls [] j)) = Ok False"
    by (simp add: never_stops_poll)
  have d: "status_queries (after_polls [] 60) = 60"
    by (simp add: status_queries_after_polls) (simp add: status_queries_def)
  have e: "WaitForCapture stops_at_third [] = (Ok (), after_polls [] 3)"
    using WaitForCapture_polls [of 2 stops_at_third "[]"] a b by (simp add: numeral_3_eq_3)
  have f: "WaitForCapture never_stops [] = (Err TriggerTimeout, after_polls [] 60)"
    using WaitForCapture_polls [of 0 never_stops "[]"] c by blast
  have a0: "fst (poll_once stops_at_third (after_polls [] 0)) = Ok False"
    and a1: "fst (poll_once stops_at_third (after_polls [] 1)) = Ok False"
    by (simp_all add: stops_at_third_poll length_after_polls)
  have c59: "fst (poll_once never_stops (after_polls [] 59)) = Ok False"
    by (rule never_stops_poll)
  from a0 a1 b c59 d e f show ?thesis by blast
qed

end
